theory Spec2Isabelle
  imports Main "HOL-Library.Word"
begin

section \<open>The task list of \<open>my-app/app/page.tsx\<close>\<close>

text \<open>
  The page keeps an ordered list of to-do items in a reducer (\<open>todoReducer\<close>), reads it
  once from \<open>localStorage\<close> when it starts (\<open>initApp\<close>) and writes it back after every
  change. This theory embeds the reducer, the two storage effects and the two platform
  functions they call (\<open>JSON.stringify\<close>, \<open>JSON.parse\<close>) and proves the properties the
  specification states about them.
\<close>

subsection \<open>Strings\<close>

text \<open>
  A JavaScript string is a sequence of 16-bit code units; \<open>===\<close> on strings compares the
  code units. \<open>js\<close> writes an ASCII literal as such a sequence.
\<close>

type_synonym unit16 = "16 word"
type_synonym jsstring = "unit16 list"

definition js :: "string \<Rightarrow> jsstring" where
  "js s = map (\<lambda>c. of_nat (of_char c)) s"

subsection \<open>Data model (lines 5-17)\<close>

text \<open>
  \<^verbatim>\<open>type Todo = { id: string; text: string; completed: boolean; createdAt: string }\<close>.
  The fields \<open>id\<close> and \<open>text\<close> carry the suffix \<open>_Todo\<close>, since \<open>id\<close> is HOL's identity
  function and \<open>text\<close> a keyword.
\<close>

record Todo =
  id_Todo :: jsstring
  text_Todo :: jsstring
  completed :: bool
  createdAt :: jsstring

text \<open>
  The tagged union \<open>Action\<close>. The payload \<open>{id, text}\<close> of \<open>UPDATE_TODO\<close> is the
  constructor's two arguments, in this order.
\<close>

datatype Action =
    SET_TODOS "Todo list"
  | ADD_TODO jsstring
  | TOGGLE_TODO jsstring
  | DELETE_TODO jsstring
  | UPDATE_TODO jsstring jsstring

text \<open>
  \<open>ADD_TODO\<close> reads two values from its environment: the result of
  \<open>crypto.randomUUID()\<close> and that of \<open>new Date().toISOString()\<close>. The reducer takes them
  as an argument: what the two calls return during this run of the reducer.
\<close>

record env =
  crypto_randomUUID :: jsstring
  Date_toISOString :: jsstring

subsection \<open>The reducer (lines 19-39)\<close>

text \<open>
  One equation for each \<open>case\<close> of the \<open>switch\<close>. The \<open>default\<close> branch cannot be
  reached by a value of type \<open>Action\<close>. \<open>Array.prototype.map\<close> and \<open>filter\<close> are the list
  functions of the same name; the spread \<open>{...t, completed: !t.completed}\<close> is a record
  update.
\<close>

fun todoReducer :: "env \<Rightarrow> Todo list \<Rightarrow> Action \<Rightarrow> Todo list" where
  "todoReducer e state (SET_TODOS payload) = payload"
| "todoReducer e state (ADD_TODO payload) =
     state @ [\<lparr>id_Todo = crypto_randomUUID e, text_Todo = payload,
               completed = False, createdAt = Date_toISOString e\<rparr>]"
| "todoReducer e state (TOGGLE_TODO payload) =
     map (\<lambda>t. if id_Todo t = payload then t\<lparr>completed := \<not> completed t\<rparr> else t) state"
| "todoReducer e state (DELETE_TODO payload) =
     filter (\<lambda>t. id_Todo t \<noteq> payload) state"
| "todoReducer e state (UPDATE_TODO ident txt) =
     map (\<lambda>t. if id_Todo t = ident then t\<lparr>text_Todo := txt\<rparr> else t) state"

subsection \<open>JSON values\<close>

text \<open>
  What \<open>JSON.parse\<close> can return. TypeScript's types are erased when the page runs, so
  the value read back from storage is any of these, whatever the annotation
  \<open>payload: Todo[]\<close> says. An object is the list of its properties in insertion order.
  A number is kept as the literal that denotes it: no property below reads a number.
\<close>

datatype jsvalue =
    JNull
  | JBool bool
  | JNumber jsstring
  | JString jsstring
  | JArray "jsvalue list"
  | JObject "(jsstring \<times> jsvalue) list"

text \<open>The object literal of line 24 and an array of such objects, as values.\<close>

definition Todo_value :: "Todo \<Rightarrow> jsvalue" where
  "Todo_value t =
     JObject [(js ''id'', JString (id_Todo t)), (js ''text'', JString (text_Todo t)),
              (js ''completed'', JBool (completed t)),
              (js ''createdAt'', JString (createdAt t))]"

definition Todos_value :: "Todo list \<Rightarrow> jsvalue" where
  "Todos_value L = JArray (map Todo_value L)"

text \<open>
  The type \<open>Todo[]\<close> read as a test on a value: an array of objects that have the four
  properties with the declared types (an object may have more: the type is structural).
\<close>

fun has_string :: "(jsstring \<times> jsvalue) list \<Rightarrow> jsstring \<Rightarrow> bool" where
  "has_string ps k = (case map_of ps k of Some (JString _) \<Rightarrow> True | _ \<Rightarrow> False)"

fun has_boolean :: "(jsstring \<times> jsvalue) list \<Rightarrow> jsstring \<Rightarrow> bool" where
  "has_boolean ps k = (case map_of ps k of Some (JBool _) \<Rightarrow> True | _ \<Rightarrow> False)"

fun is_Todo :: "jsvalue \<Rightarrow> bool" where
  "is_Todo (JObject ps) =
     (has_string ps (js ''id'') \<and> has_string ps (js ''text'')
      \<and> has_boolean ps (js ''completed'') \<and> has_string ps (js ''createdAt''))"
| "is_Todo _ = False"

fun is_Todo_array :: "jsvalue \<Rightarrow> bool" where
  "is_Todo_array (JArray vs) = list_all is_Todo vs"
| "is_Todo_array _ = False"

subsection \<open>\<open>JSON.stringify\<close> on a list of tasks\<close>

text \<open>
  \<open>JSON.stringify(todos)\<close> of line 66, at the type \<open>Todo[]\<close> the source gives \<open>todos\<close>,
  as ECMA-262 defines it (SerializeJSONArray, SerializeJSONObject, QuoteJSONString, with
  no indentation). A string is quoted code point by code point: the seven characters of
  the escape table get their two-character escape, every other control character and
  every unpaired surrogate is written \<open>\uXXXX\<close> in lower-case hexadecimal, and anything
  else, a surrogate pair included, is copied. The properties of a task are written in
  the order of the object literal of line 24, which the spreads of lines 31 and 35 keep.
\<close>

definition is_lead :: "unit16 \<Rightarrow> bool" where
  "is_lead c = (0xD800 \<le> c \<and> c \<le> 0xDBFF)"

definition is_trail :: "unit16 \<Rightarrow> bool" where
  "is_trail c = (0xDC00 \<le> c \<and> c \<le> 0xDFFF)"

definition hex_digit :: "nat \<Rightarrow> unit16" where
  "hex_digit n = (if n < 10 then of_nat (48 + n) else of_nat (87 + n))"

definition UnicodeEscape :: "unit16 \<Rightarrow> jsstring" where
  "UnicodeEscape c =
     [0x5C, 0x75, hex_digit (unat c div 4096), hex_digit (unat c div 256 mod 16),
      hex_digit (unat c div 16 mod 16), hex_digit (unat c mod 16)]"

definition escape_unit :: "unit16 \<Rightarrow> jsstring" where
  "escape_unit c =
     (if c = 0x08 then [0x5C, 0x62]
      else if c = 0x09 then [0x5C, 0x74]
      else if c = 0x0A then [0x5C, 0x6E]
      else if c = 0x0C then [0x5C, 0x66]
      else if c = 0x0D then [0x5C, 0x72]
      else if c = 0x22 then [0x5C, 0x22]
      else if c = 0x5C then [0x5C, 0x5C]
      else if c < 0x20 \<or> is_lead c \<or> is_trail c then UnicodeEscape c
      else [c])"

fun quote_units :: "jsstring \<Rightarrow> jsstring" where
  "quote_units [] = []"
| "quote_units [c] = escape_unit c"
| "quote_units (c # d # ds) =
     (if is_lead c \<and> is_trail d then c # d # quote_units ds
      else escape_unit c @ quote_units (d # ds))"

definition QuoteJSONString :: "jsstring \<Rightarrow> jsstring" where
  "QuoteJSONString s = 0x22 # quote_units s @ [0x22]"

definition stringify_boolean :: "bool \<Rightarrow> jsstring" where
  "stringify_boolean b = (if b then js ''true'' else js ''false'')"

definition serialize_property :: "jsstring \<Rightarrow> jsstring \<Rightarrow> jsstring" where
  "serialize_property k v = QuoteJSONString k @ 0x3A # v"

definition stringify_Todo :: "Todo \<Rightarrow> jsstring" where
  "stringify_Todo t =
     0x7B # serialize_property (js ''id'') (QuoteJSONString (id_Todo t))
     @ 0x2C # serialize_property (js ''text'') (QuoteJSONString (text_Todo t))
     @ 0x2C # serialize_property (js ''completed'') (stringify_boolean (completed t))
     @ 0x2C # serialize_property (js ''createdAt'') (QuoteJSONString (createdAt t))
     @ [0x7D]"

fun join_comma :: "jsstring list \<Rightarrow> jsstring" where
  "join_comma [] = []"
| "join_comma [x] = x"
| "join_comma (x # y # zs) = x @ 0x2C # join_comma (y # zs)"

definition JSON_stringify :: "Todo list \<Rightarrow> jsstring" where
  "JSON_stringify L = 0x5B # join_comma (map stringify_Todo L) @ [0x5D]"

subsection \<open>\<open>JSON.parse\<close>\<close>

text \<open>
  \<open>JSON.parse(saved)\<close> of line 53, following the JSON grammar of ECMA-404 that
  ECMA-262 prescribes: white space is tab, line feed, carriage return and space; a value
  is an object, an array, a string, a number or one of \<open>true\<close>, \<open>false\<close>, \<open>null\<close>;
  text that does not match raises \<open>SyntaxError\<close>.
\<close>

datatype js_error = SyntaxError

text \<open>
  The result of parsing a prefix of the text: the value and the text left over, an
  exception, or no result because the recursion ran out of fuel.
\<close>

datatype parsed = Ok jsvalue jsstring | Throw js_error | OutOfFuel

definition is_ws :: "unit16 \<Rightarrow> bool" where
  "is_ws c = (c = 0x09 \<or> c = 0x0A \<or> c = 0x0D \<or> c = 0x20)"

definition skip_ws :: "jsstring \<Rightarrow> jsstring" where
  "skip_ws s = dropWhile is_ws s"

definition is_digit :: "unit16 \<Rightarrow> bool" where
  "is_digit c = (0x30 \<le> c \<and> c \<le> 0x39)"

text \<open>
  The characters of a string, after the opening quote, up to the closing one: a
  backslash starts one of the eight two-character escapes or \<open>\uXXXX\<close> with four
  hexadecimal digits in either case, a control character is an error, and any other
  code unit stands for itself.
\<close>

definition hex_value :: "unit16 \<Rightarrow> nat option" where
  "hex_value c =
     (if 0x30 \<le> c \<and> c \<le> 0x39 then Some (unat c - 48)
      else if 0x61 \<le> c \<and> c \<le> 0x66 then Some (unat c - 87)
      else if 0x41 \<le> c \<and> c \<le> 0x46 then Some (unat c - 55)
      else None)"

definition hex4_value :: "unit16 \<Rightarrow> unit16 \<Rightarrow> unit16 \<Rightarrow> unit16 \<Rightarrow> unit16 option" where
  "hex4_value h1 h2 h3 h4 =
     (case (hex_value h1, hex_value h2, hex_value h3, hex_value h4) of
        (Some a, Some b, Some c, Some d) \<Rightarrow> Some (of_nat (((a * 16 + b) * 16 + c) * 16 + d))
      | _ \<Rightarrow> None)"

definition unescape :: "unit16 \<Rightarrow> unit16 option" where
  "unescape e =
     (if e = 0x22 then Some 0x22
      else if e = 0x5C then Some 0x5C
      else if e = 0x2F then Some 0x2F
      else if e = 0x62 then Some 0x08
      else if e = 0x66 then Some 0x0C
      else if e = 0x6E then Some 0x0A
      else if e = 0x72 then Some 0x0D
      else if e = 0x74 then Some 0x09
      else None)"

definition prepend :: "unit16 \<Rightarrow> (jsstring \<times> jsstring) option \<Rightarrow> (jsstring \<times> jsstring) option" where
  "prepend c r = (case r of None \<Rightarrow> None | Some (s, rest) \<Rightarrow> Some (c # s, rest))"

fun parse_chars :: "jsstring \<Rightarrow> (jsstring \<times> jsstring) option" where
  "parse_chars [] = None"
| "parse_chars (c # cs) =
     (if c = 0x22 then Some ([], cs)
      else if c = 0x5C then
        (case cs of
           [] \<Rightarrow> None
         | e # es \<Rightarrow>
             if e = 0x75 then
               (case es of
                  h1 # h2 # h3 # h4 # r \<Rightarrow>
                    (case hex4_value h1 h2 h3 h4 of
                       None \<Rightarrow> None
                     | Some u \<Rightarrow> prepend u (parse_chars r))
                | _ \<Rightarrow> None)
             else
               (case unescape e of
                  None \<Rightarrow> None
                | Some u \<Rightarrow> prepend u (parse_chars es)))
      else if c < 0x20 then None
      else prepend c (parse_chars cs))"

text \<open>
  A number: an optional minus, an integer part without a leading zero, an optional
  fraction, an optional exponent. The result is the literal and the rest of the text.
\<close>

definition digits1 :: "jsstring \<Rightarrow> (jsstring \<times> jsstring) option" where
  "digits1 s = (case takeWhile is_digit s of [] \<Rightarrow> None | ds \<Rightarrow> Some (ds, dropWhile is_digit s))"

definition scan_int :: "jsstring \<Rightarrow> (jsstring \<times> jsstring) option" where
  "scan_int s =
     (case s of
        [] \<Rightarrow> None
      | c # cs \<Rightarrow> if c = 0x30 then Some ([c], cs) else digits1 s)"

definition scan_frac :: "jsstring \<Rightarrow> (jsstring \<times> jsstring) option" where
  "scan_frac s =
     (case s of
        [] \<Rightarrow> Some ([], s)
      | c # cs \<Rightarrow>
          if c = 0x2E then
            (case digits1 cs of None \<Rightarrow> None | Some (ds, r) \<Rightarrow> Some (c # ds, r))
          else Some ([], s))"

definition scan_sign :: "jsstring \<Rightarrow> jsstring \<times> jsstring" where
  "scan_sign s =
     (case s of
        [] \<Rightarrow> ([], s)
      | c # cs \<Rightarrow> if c = 0x2B \<or> c = 0x2D then ([c], cs) else ([], s))"

definition scan_exp :: "jsstring \<Rightarrow> (jsstring \<times> jsstring) option" where
  "scan_exp s =
     (case s of
        [] \<Rightarrow> Some ([], s)
      | c # cs \<Rightarrow>
          if c = 0x65 \<or> c = 0x45 then
            (case scan_sign cs of
               (sg, r) \<Rightarrow>
                 (case digits1 r of None \<Rightarrow> None | Some (ds, r') \<Rightarrow> Some (c # sg @ ds, r')))
          else Some ([], s))"

definition scan_minus :: "jsstring \<Rightarrow> jsstring \<times> jsstring" where
  "scan_minus s =
     (case s of
        [] \<Rightarrow> ([], s)
      | c # cs \<Rightarrow> if c = 0x2D then ([c], cs) else ([], s))"

definition parse_number :: "jsstring \<Rightarrow> (jsstring \<times> jsstring) option" where
  "parse_number s =
     (case scan_minus s of
        (m, s1) \<Rightarrow>
          (case scan_int s1 of
             None \<Rightarrow> None
           | Some (i, s2) \<Rightarrow>
               (case scan_frac s2 of
                  None \<Rightarrow> None
                | Some (f, s3) \<Rightarrow>
                    (case scan_exp s3 of
                       None \<Rightarrow> None
                     | Some (x, s4) \<Rightarrow> Some (m @ i @ f @ x, s4)))))"

definition literal :: "jsstring \<Rightarrow> jsstring \<Rightarrow> jsstring option" where
  "literal w s = (if take (length w) s = w then Some (drop (length w) s) else None)"

text \<open>
  Defining a property on the object under construction: a key that is already there
  keeps its place and gets the new value, a new key goes to the end. (JavaScript lists
  keys that are array indices before the others; the model keeps insertion order for
  all keys.)
\<close>

definition put_property :: "jsstring \<Rightarrow> jsvalue \<Rightarrow> (jsstring \<times> jsvalue) list \<Rightarrow> (jsstring \<times> jsvalue) list" where
  "put_property k v ps =
     (if k \<in> fst ` set ps then map (\<lambda>(k', v'). if k' = k then (k', v) else (k', v')) ps
      else ps @ [(k, v)])"

text \<open>
  The recursive descent. \<open>parse_value\<close> reads one value at the head of the text;
  \<open>parse_elements\<close> reads the elements of an array after its opening bracket and
  \<open>parse_members\<close> the members of an object after its opening brace, both with the
  values read so far. Arrays and objects nest without bound, so the recursion is on a
  fuel argument; lemma \<open>JSON_parse_fuel\<close> below shows that the fuel \<open>JSON_parse\<close>
  supplies is never used up.
\<close>

fun parse_value :: "nat \<Rightarrow> jsstring \<Rightarrow> parsed"
and parse_elements :: "nat \<Rightarrow> jsvalue list \<Rightarrow> jsstring \<Rightarrow> parsed"
and parse_members :: "nat \<Rightarrow> (jsstring \<times> jsvalue) list \<Rightarrow> jsstring \<Rightarrow> parsed"
where
  "parse_value 0 s = OutOfFuel"
| "parse_value (Suc n) s =
     (case s of
        [] \<Rightarrow> Throw SyntaxError
      | c # cs \<Rightarrow>
          if c = 0x7B then
            (case skip_ws cs of
               [] \<Rightarrow> Throw SyntaxError
             | d # ds \<Rightarrow> if d = 0x7D then Ok (JObject []) ds else parse_members n [] (d # ds))
          else if c = 0x5B then
            (case skip_ws cs of
               [] \<Rightarrow> Throw SyntaxError
             | d # ds \<Rightarrow> if d = 0x5D then Ok (JArray []) ds else parse_elements n [] (d # ds))
          else if c = 0x22 then
            (case parse_chars cs of
               None \<Rightarrow> Throw SyntaxError
             | Some (str, r) \<Rightarrow> Ok (JString str) r)
          else if c = 0x74 then
            (case literal (js ''true'') s of
               None \<Rightarrow> Throw SyntaxError
             | Some r \<Rightarrow> Ok (JBool True) r)
          else if c = 0x66 then
            (case literal (js ''false'') s of
               None \<Rightarrow> Throw SyntaxError
             | Some r \<Rightarrow> Ok (JBool False) r)
          else if c = 0x6E then
            (case literal (js ''null'') s of
               None \<Rightarrow> Throw SyntaxError
             | Some r \<Rightarrow> Ok JNull r)
          else
            (case parse_number s of
               None \<Rightarrow> Throw SyntaxError
             | Some (lit, r) \<Rightarrow> Ok (JNumber lit) r))"
| "parse_elements 0 acc s = OutOfFuel"
| "parse_elements (Suc n) acc s =
     (case parse_value n s of
        Ok v r \<Rightarrow>
          (case skip_ws r of
             [] \<Rightarrow> Throw SyntaxError
           | d # ds \<Rightarrow>
               if d = 0x2C then parse_elements n (acc @ [v]) (skip_ws ds)
               else if d = 0x5D then Ok (JArray (acc @ [v])) ds
               else Throw SyntaxError)
      | Throw e \<Rightarrow> Throw e
      | OutOfFuel \<Rightarrow> OutOfFuel)"
| "parse_members 0 acc s = OutOfFuel"
| "parse_members (Suc n) acc s =
     (case s of
        [] \<Rightarrow> Throw SyntaxError
      | c # cs \<Rightarrow>
          if c \<noteq> 0x22 then Throw SyntaxError
          else
            (case parse_chars cs of
               None \<Rightarrow> Throw SyntaxError
             | Some (k, r) \<Rightarrow>
                 (case skip_ws r of
                    [] \<Rightarrow> Throw SyntaxError
                  | d # ds \<Rightarrow>
                      if d \<noteq> 0x3A then Throw SyntaxError
                      else
                        (case parse_value n (skip_ws ds) of
                           Ok v r' \<Rightarrow>
                             (case skip_ws r' of
                                [] \<Rightarrow> Throw SyntaxError
                              | f # fs \<Rightarrow>
                                  if f = 0x2C then
                                    parse_members n (put_property k v acc) (skip_ws fs)
                                  else if f = 0x7D then Ok (JObject (put_property k v acc)) fs
                                  else Throw SyntaxError)
                         | Throw e \<Rightarrow> Throw e
                         | OutOfFuel \<Rightarrow> OutOfFuel))))"

text \<open>
  The whole text is one value between optional white space. By lemma \<open>JSON_parse_fuel\<close>
  the case \<open>OutOfFuel\<close> does not occur.
\<close>

definition JSON_parse :: "jsstring \<Rightarrow> js_error + jsvalue" where
  "JSON_parse s =
     (case parse_value (Suc (Suc (2 * length s))) (skip_ws s) of
        Ok v r \<Rightarrow> if skip_ws r = [] then Inr v else Inl SyntaxError
      | Throw e \<Rightarrow> Inl e
      | OutOfFuel \<Rightarrow> Inl SyntaxError)"

subsection \<open>The storage effects (lines 42-68)\<close>

text \<open>
  \<open>localStorage\<close> maps keys to strings; \<open>getItem\<close> returns \<open>null\<close> (here \<open>None\<close>) for a key
  that is absent and \<open>setItem\<close> overwrites. Both are taken to succeed.
\<close>

type_synonym storage = "jsstring \<rightharpoonup> jsstring"

definition localStorage_getItem :: "storage \<Rightarrow> jsstring \<Rightarrow> jsstring option" where
  "localStorage_getItem st k = st k"

definition localStorage_setItem :: "storage \<Rightarrow> jsstring \<Rightarrow> jsstring \<Rightarrow> storage" where
  "localStorage_setItem st k v = st(k \<mapsto> v)"

text \<open>
  The reducer's \<open>SET_TODOS\<close> branch as it runs on the value \<open>JSON.parse\<close> returned:
  \<open>return action.payload\<close>, whatever the payload is. On values that are task lists it
  is \<open>todoReducer\<close> (lemma \<open>dispatch_SET_TODOS_typed\<close>).
\<close>

definition dispatch_SET_TODOS :: "jsvalue \<Rightarrow> jsvalue \<Rightarrow> jsvalue" where
  "dispatch_SET_TODOS state payload = payload"

text \<open>
  \<open>initApp\<close> (lines 49-60), run on the storage and the reducer's state. It returns the
  state after the dispatch, if there is one, and the value of \<open>isMounted\<close> that the
  \<open>finally\<close> block sets. \<open>if (saved)\<close> is false for \<open>null\<close> and for the empty string.
  The \<open>catch\<close> block logs and goes on, so an exception of \<open>JSON.parse\<close> leaves the state
  as it was.
\<close>

definition initApp :: "storage \<Rightarrow> jsvalue \<Rightarrow> jsvalue \<times> bool" where
  "initApp localStorage state =
     (case localStorage_getItem localStorage (js ''todos'') of
        None \<Rightarrow> (state, True)
      | Some saved \<Rightarrow>
          if saved = [] then (state, True)
          else
            (case JSON_parse saved of
               Inl e \<Rightarrow> (state, True)
             | Inr payload \<Rightarrow> (dispatch_SET_TODOS state payload, True)))"

text \<open>
  Hydration: the state the page shows after \<open>initApp\<close>, started from the initial state
  \<open>[]\<close> of \<open>useReducer(todoReducer, [])\<close> (line 42).
\<close>

definition hydrate :: "storage \<Rightarrow> jsvalue" where
  "hydrate localStorage = fst (initApp localStorage (JArray []))"

text \<open>
  The second effect (lines 64-68), run with the current \<open>isMounted\<close> and \<open>todos\<close>: it
  writes the serialized list once the page is mounted and does nothing before.
\<close>

definition saveEffect :: "bool \<Rightarrow> Todo list \<Rightarrow> storage \<Rightarrow> storage" where
  "saveEffect isMounted todos localStorage =
     (if isMounted then localStorage_setItem localStorage (js ''todos'') (JSON_stringify todos)
      else localStorage)"

subsection \<open>Runs of the reducer\<close>




subsection \<open>Stored values that are not task lists\<close>

text \<open>
  A stored string is corrupted when it cannot be deserialized into a sequence of tasks:
  \<open>JSON.parse\<close> rejects it, or what \<open>JSON.parse\<close> returns is not of type \<open>Todo[]\<close>.
\<close>

definition corrupted :: "jsstring \<Rightarrow> bool" where
  "corrupted saved = (case JSON_parse saved of Inl e \<Rightarrow> True | Inr v \<Rightarrow> \<not> is_Todo_array v)"

subsection \<open>Example data\<close>

text \<open>Two tasks and an environment, for the concrete instances below.\<close>

definition milk :: Todo where
  "milk = \<lparr>id_Todo = js ''a1'', text_Todo = js ''Buy milk'', completed = False,
           createdAt = js ''2024-05-01T10:00:00.000Z''\<rparr>"

definition dog :: Todo where
  "dog = \<lparr>id_Todo = js ''b2'', text_Todo = js ''Walk dog'', completed = False,
          createdAt = js ''2024-05-01T10:05:00.000Z''\<rparr>"

definition env0 :: env where
  "env0 = \<lparr>crypto_randomUUID = js ''c3'', Date_toISOString = js ''2024-05-01T10:10:00.000Z''\<rparr>"

text \<open>
  Four storages: one holds \<open>null\<close>, one an array with half a task, one the same task
  twice, one broken text.
\<close>

definition null_storage :: storage where
  "null_storage = Map.empty(js ''todos'' \<mapsto> js ''null'')"

definition partial_storage :: storage where
  "partial_storage = Map.empty(js ''todos'' \<mapsto> js ''[{\"id\":\"a1\"}]'')"


definition broken_storage :: storage where
  "broken_storage = Map.empty(js ''todos'' \<mapsto> js ''{bad'')"

section \<open>Properties of the reducer\<close>

lemma ids_neq: "js ''a1'' \<noteq> js ''b2''" "js ''b2'' \<noteq> js ''a1''" "js ''c3'' \<noteq> js ''a1''" "js ''c3'' \<noteq> js ''b2''"
  "js ''a1'' \<noteq> js ''c3''" "js ''b2'' \<noteq> js ''c3''"
  by (simp_all add: js_def)

text \<open>
  C1. For every list \<open>L\<close> and string \<open>s\<close>, \<open>ADD_TODO s\<close> returns a list of length
  \<open>|L| + 1\<close> whose first \<open>|L|\<close> elements are those of \<open>L\<close>, followed by one new task
  with \<open>text = s\<close>, \<open>completed = false\<close>, the id that \<open>crypto.randomUUID()\<close> generated
  in this call and the timestamp that \<open>new Date().toISOString()\<close> produced in it.
\<close>

theorem add_appends_new_task:
  "length (todoReducer e L (ADD_TODO s)) = length L + 1
   \<and> take (length L) (todoReducer e L (ADD_TODO s)) = L
   \<and> id_Todo (last (todoReducer e L (ADD_TODO s))) = crypto_randomUUID e
   \<and> text_Todo (last (todoReducer e L (ADD_TODO s))) = s
   \<and> completed (last (todoReducer e L (ADD_TODO s))) = False
   \<and> createdAt (last (todoReducer e L (ADD_TODO s))) = Date_toISOString e"
  by simp

text \<open>
  C2. For every list \<open>L\<close> that contains an item with id \<open>x\<close>, \<open>TOGGLE_TODO x\<close> returns a
  list of the same length and order, in which some item with id \<open>x\<close> exists and every
  item with id \<open>x\<close> has \<open>completed\<close> flipped, with \<open>id\<close>, \<open>text\<close> and \<open>createdAt\<close>
  unchanged, and every other item is equal to what it was.
\<close>

theorem toggle_flips_matching_item:
  assumes "x \<in> id_Todo ` set L"
  shows "length (todoReducer e L (TOGGLE_TODO x)) = length L
   \<and> (\<exists>i<length L. id_Todo (L ! i) = x
         \<and> completed (todoReducer e L (TOGGLE_TODO x) ! i) = (\<not> completed (L ! i)))
   \<and> (\<forall>i<length L.
         id_Todo (todoReducer e L (TOGGLE_TODO x) ! i) = id_Todo (L ! i)
       \<and> text_Todo (todoReducer e L (TOGGLE_TODO x) ! i) = text_Todo (L ! i)
       \<and> createdAt (todoReducer e L (TOGGLE_TODO x) ! i) = createdAt (L ! i)
       \<and> (id_Todo (L ! i) = x \<longrightarrow>
            completed (todoReducer e L (TOGGLE_TODO x) ! i) = (\<not> completed (L ! i)))
       \<and> (id_Todo (L ! i) \<noteq> x \<longrightarrow> todoReducer e L (TOGGLE_TODO x) ! i = L ! i))"
proof -
  from assms obtain i where "i < length L" "id_Todo (L ! i) = x"
    by (auto simp: in_set_conv_nth)
  then have "\<exists>i<length L. id_Todo (L ! i) = x
         \<and> completed (todoReducer e L (TOGGLE_TODO x) ! i) = (\<not> completed (L ! i))"
    by auto
  then show ?thesis by simp
qed

theorem toggle_flips_matching_item_witness:
  "js ''a1'' \<in> id_Todo ` set [milk, dog]
   \<and> todoReducer env0 [milk, dog] (TOGGLE_TODO (js ''a1'')) = [milk\<lparr>completed := True\<rparr>, dog]"
  using toggle_flips_matching_item [of "js ''a1''" "[milk, dog]" env0]
  by (simp add: milk_def dog_def ids_neq)

text \<open>
  C3. For every list \<open>L\<close> with pairwise different ids that contains an item with id
  \<open>x\<close>, \<open>DELETE_TODO x\<close> removes exactly that one item: the list splits into the items
  before it, the item, and the items after it, and the result is the items before
  followed by the items after.
\<close>

theorem delete_removes_exactly_one:
  assumes "distinct (map id_Todo L)" and "x \<in> id_Todo ` set L"
  shows "\<exists>ys t zs. L = ys @ t # zs \<and> id_Todo t = x
           \<and> todoReducer e L (DELETE_TODO x) = ys @ zs"
proof -
  from assms(2) obtain ys t zs where L: "L = ys @ t # zs" and t: "id_Todo t = x"
    by (auto simp: in_set_conv_decomp)
  from assms(1) L t have "\<forall>u \<in> set ys \<union> set zs. id_Todo u \<noteq> x"
    by (auto simp: image_iff)
  then have "filter (\<lambda>t. id_Todo t \<noteq> x) ys = ys" "filter (\<lambda>t. id_Todo t \<noteq> x) zs = zs"
    by (auto simp: filter_id_conv)
  with L t have "todoReducer e L (DELETE_TODO x) = ys @ zs" by simp
  with L t show ?thesis by blast
qed

theorem delete_removes_exactly_one_witness:
  "distinct (map id_Todo [milk, dog]) \<and> js ''a1'' \<in> id_Todo ` set [milk, dog]
   \<and> todoReducer env0 [milk, dog] (DELETE_TODO (js ''a1'')) = [dog]"
  using delete_removes_exactly_one [of "[milk, dog]" "js ''a1''" env0]
  by (simp add: milk_def dog_def ids_neq)

text \<open>
  C4. For every list \<open>L\<close> and id \<open>x\<close> that no item of \<open>L\<close> has, \<open>TOGGLE_TODO x\<close>,
  \<open>DELETE_TODO x\<close> and \<open>UPDATE_TODO\<close> with id \<open>x\<close> each return a list equal to \<open>L\<close>.
  (The reducer is a total function: it has no error result.)
\<close>

theorem unmatched_id_is_noop:
  assumes "x \<notin> id_Todo ` set L"
  shows "todoReducer e L (TOGGLE_TODO x) = L
       \<and> todoReducer e L (DELETE_TODO x) = L
       \<and> todoReducer e L (UPDATE_TODO x s) = L"
proof -
  from assms have "\<forall>t \<in> set L. id_Todo t \<noteq> x" by auto
  then show ?thesis by (simp add: map_idI filter_id_conv)
qed

theorem unmatched_id_is_noop_witness:
  "js ''c3'' \<notin> id_Todo ` set [milk, dog]
   \<and> todoReducer env0 [milk, dog] (TOGGLE_TODO (js ''c3'')) = [milk, dog]
   \<and> todoReducer env0 [milk, dog] (DELETE_TODO (js ''c3'')) = [milk, dog]
   \<and> todoReducer env0 [milk, dog] (UPDATE_TODO (js ''c3'') (js ''x'')) = [milk, dog]"
  using unmatched_id_is_noop [of "js ''c3''" "[milk, dog]" env0 "js ''x''"]
  by (simp add: milk_def dog_def ids_neq)

text \<open>
  C5. For every list \<open>L\<close> that contains an item with id \<open>x\<close> and every string \<open>s\<close>,
  \<open>UPDATE_TODO\<close> with payload \<open>{id: x, text: s}\<close> returns a list of the same length and
  order, in which some item with id \<open>x\<close> exists and every item with id \<open>x\<close> has the
  text \<open>s\<close>, with \<open>id\<close>, \<open>completed\<close> and \<open>createdAt\<close> unchanged, and every other item
  is equal to what it was.
\<close>

theorem update_replaces_text_only:
  assumes "x \<in> id_Todo ` set L"
  shows "length (todoReducer e L (UPDATE_TODO x s)) = length L
   \<and> (\<exists>i<length L. id_Todo (L ! i) = x
         \<and> text_Todo (todoReducer e L (UPDATE_TODO x s) ! i) = s)
   \<and> (\<forall>i<length L.
         id_Todo (todoReducer e L (UPDATE_TODO x s) ! i) = id_Todo (L ! i)
       \<and> completed (todoReducer e L (UPDATE_TODO x s) ! i) = completed (L ! i)
       \<and> createdAt (todoReducer e L (UPDATE_TODO x s) ! i) = createdAt (L ! i)
       \<and> (id_Todo (L ! i) = x \<longrightarrow> text_Todo (todoReducer e L (UPDATE_TODO x s) ! i) = s)
       \<and> (id_Todo (L ! i) \<noteq> x \<longrightarrow> todoReducer e L (UPDATE_TODO x s) ! i = L ! i))"
proof -
  from assms obtain i where "i < length L" "id_Todo (L ! i) = x"
    by (auto simp: in_set_conv_nth)
  then have "\<exists>i<length L. id_Todo (L ! i) = x
         \<and> text_Todo (todoReducer e L (UPDATE_TODO x s) ! i) = s"
    by auto
  then show ?thesis by simp
qed

theorem update_replaces_text_only_witness:
  "js ''b2'' \<in> id_Todo ` set [milk, dog]
   \<and> todoReducer env0 [milk, dog] (UPDATE_TODO (js ''b2'') (js ''New text''))
       = [milk, dog\<lparr>text_Todo := js ''New text''\<rparr>]"
  using update_replaces_text_only [of "js ''b2''" "[milk, dog]" env0 "js ''New text''"]
  by (simp add: milk_def dog_def ids_neq)

text \<open>
  C9. Delete is idempotent: for every list \<open>L\<close> and id \<open>x\<close>, applying \<open>DELETE_TODO x\<close>
  twice gives the same list as applying it once.
\<close>

theorem delete_idempotent:
  "todoReducer e' (todoReducer e L (DELETE_TODO x)) (DELETE_TODO x)
     = todoReducer e L (DELETE_TODO x)"
  by simp

text \<open>
  C10. \<open>SET_TODOS\<close> installs its payload as it is, so a list may hold several items with
  one id. On any list, \<open>TOGGLE_TODO x\<close> flips \<open>completed\<close> at every position whose item
  has id \<open>x\<close>, \<open>UPDATE_TODO\<close> with id \<open>x\<close> sets the text at every such position, and
  \<open>DELETE_TODO x\<close> leaves no item with id \<open>x\<close> and shortens the list by the number of
  items that had it.
\<close>

theorem all_matches_affected:
  "todoReducer e L (SET_TODOS P) = P
   \<and> (\<forall>i<length L. id_Todo (L ! i) = x \<longrightarrow>
         completed (todoReducer e L (TOGGLE_TODO x) ! i) = (\<not> completed (L ! i)))
   \<and> (\<forall>i<length L. id_Todo (L ! i) = x \<longrightarrow>
         text_Todo (todoReducer e L (UPDATE_TODO x s) ! i) = s)
   \<and> (\<forall>t \<in> set (todoReducer e L (DELETE_TODO x)). id_Todo t \<noteq> x)
   \<and> length (todoReducer e L (DELETE_TODO x)) + length (filter (\<lambda>t. id_Todo t = x) L) = length L"
  using sum_length_filter_compl [of "\<lambda>t. id_Todo t = x" L] by simp

theorem all_matches_affected_witness:
  "todoReducer env0 [] (SET_TODOS [milk, dog, milk]) = [milk, dog, milk]
   \<and> (2::nat) < length [milk, dog, milk] \<and> id_Todo ([milk, dog, milk] ! 0) = id_Todo ([milk, dog, milk] ! 2)
   \<and> todoReducer env0 [milk, dog, milk] (TOGGLE_TODO (js ''a1''))
        = [milk\<lparr>completed := True\<rparr>, dog, milk\<lparr>completed := True\<rparr>]
   \<and> todoReducer env0 [milk, dog, milk] (UPDATE_TODO (js ''a1'') (js ''Buy tea''))
        = [milk\<lparr>text_Todo := js ''Buy tea''\<rparr>, dog, milk\<lparr>text_Todo := js ''Buy tea''\<rparr>]
   \<and> todoReducer env0 [milk, dog, milk] (DELETE_TODO (js ''a1'')) = [dog]"
  using all_matches_affected [of env0 "[milk, dog, milk]" "[milk, dog, milk]" "js ''a1''" "js ''Buy tea''"]
  by (simp add: milk_def dog_def ids_neq)

section \<open>Properties of \<open>JSON.stringify\<close> and \<open>JSON.parse\<close>\<close>

subsection \<open>Quoted strings are read back\<close>

lemma upt_16: "[0..<16] = [0, 1, 2, 3, 4, 5, 6, 7, 8, 9, 10, 11, 12, 13, 14, 15 :: nat]"
  by code_simp

lemma hex_value_hex_digit: "n < 16 \<Longrightarrow> hex_value (hex_digit n) = Some n"
proof -
  assume "n < 16"
  then have "n \<in> set [0..<16]" by simp
  then have "n \<in> set [0, 1, 2, 3, 4, 5, 6, 7, 8, 9, 10, 11, 12, 13, 14, 15 :: nat]"
    by (simp only: upt_16)
  then consider "n = 0" | "n = 1" | "n = 2" | "n = 3" | "n = 4" | "n = 5" | "n = 6" | "n = 7"
    | "n = 8" | "n = 9" | "n = 10" | "n = 11" | "n = 12" | "n = 13" | "n = 14" | "n = 15"
    by (simp only: set_simps insert_iff empty_iff) blast
  then show ?thesis
    by cases (simp_all add: hex_value_def hex_digit_def)
qed
lemma hex_split:
  fixes u :: nat
  shows "((u div 4096 * 16 + u div 256 mod 16) * 16 + u div 16 mod 16) * 16 + u mod 16 = u"
proof -
  have a: "u div 4096 = u div 256 div 16" and b: "u div 256 = u div 16 div 16"
    by (simp_all add: div_mult2_eq [symmetric])
  have "u div 4096 * 16 + u div 256 mod 16 = u div 256"
    unfolding a by (rule div_mult_mod_eq)
  moreover have "u div 256 * 16 + u div 16 mod 16 = u div 16"
    unfolding b by (rule div_mult_mod_eq)
  moreover have "u div 16 * 16 + u mod 16 = u"
    by (rule div_mult_mod_eq)
  ultimately show ?thesis by (simp only:)
qed

lemma hex4_value_UnicodeEscape:
  "hex4_value (hex_digit (unat c div 4096)) (hex_digit (unat c div 256 mod 16))
     (hex_digit (unat c div 16 mod 16)) (hex_digit (unat c mod 16)) = Some c"
proof -
  have "unat c < 16 * 4096" using unsigned_less [of c] by simp
  then have a: "unat c div 4096 < 16" by (rule less_mult_imp_div_less)
  have "hex4_value (hex_digit (unat c div 4096)) (hex_digit (unat c div 256 mod 16))
     (hex_digit (unat c div 16 mod 16)) (hex_digit (unat c mod 16))
     = Some (of_nat (((unat c div 4096 * 16 + unat c div 256 mod 16) * 16 + unat c div 16 mod 16) * 16
             + unat c mod 16))"
    unfolding hex4_value_def by (simp add: hex_value_hex_digit a)
  moreover have "(of_nat (((unat c div 4096 * 16 + unat c div 256 mod 16) * 16 + unat c div 16 mod 16) * 16
             + unat c mod 16) :: unit16) = c"
    unfolding hex_split by simp
  ultimately show ?thesis by (simp only:)
qed
lemma parse_chars_UnicodeEscape:
  "parse_chars (UnicodeEscape c @ X) = prepend c (parse_chars X)"
  by (simp add: UnicodeEscape_def hex4_value_UnicodeEscape)

lemma parse_chars_plain:
  "c \<noteq> 0x22 \<Longrightarrow> c \<noteq> 0x5C \<Longrightarrow> \<not> c < 0x20 \<Longrightarrow> parse_chars (c # X) = prepend c (parse_chars X)"
  by simp

lemma parse_chars_escape_unit:
  "parse_chars (escape_unit c @ X) = prepend c (parse_chars X)"
  by (simp add: escape_unit_def parse_chars_UnicodeEscape unescape_def del: parse_chars.simps)
     (simp add: unescape_def)

lemma surrogate_plain:
  "is_lead c \<or> is_trail c \<Longrightarrow> c \<noteq> 0x22 \<and> c \<noteq> 0x5C \<and> \<not> c < 0x20"
  by (auto simp: is_lead_def is_trail_def word_le_nat_alt word_less_nat_alt)

lemma parse_chars_quote_units:
  "parse_chars (quote_units s @ 0x22 # rest) = Some (s, rest)"
proof (induction s rule: quote_units.induct)
  case 1
  show ?case by simp
next
  case (2 c)
  show ?case by (simp add: parse_chars_escape_unit prepend_def del: parse_chars.simps) simp
next
  case (3 c d ds)
  show ?case
  proof (cases "is_lead c \<and> is_trail d")
    case True
    then have "c \<noteq> 0x22 \<and> c \<noteq> 0x5C \<and> \<not> c < 0x20" "d \<noteq> 0x22 \<and> d \<noteq> 0x5C \<and> \<not> d < 0x20"
      using surrogate_plain [of c] surrogate_plain [of d] by blast+
    then have "parse_chars (c # d # quote_units ds @ 0x22 # rest)
                 = prepend c (prepend d (parse_chars (quote_units ds @ 0x22 # rest)))"
      by simp
    with True 3 show ?thesis by (simp add: prepend_def del: parse_chars.simps)
  next
    case False
    then have q: "quote_units (c # d # ds) = escape_unit c @ quote_units (d # ds)"
      by (simp only: quote_units.simps if_False)
    from False have "parse_chars (quote_units (d # ds) @ 0x22 # rest) = Some (d # ds, rest)"
      by (rule 3)
    then show ?thesis
      by (simp only: q append_assoc parse_chars_escape_unit) (simp add: prepend_def)
  qed
qed


subsection \<open>A serialized task list is read back\<close>

lemma skip_ws_nonws: "\<not> is_ws c \<Longrightarrow> skip_ws (c # cs) = c # cs"
  by (simp add: skip_ws_def)

lemma skip_ws_Quote: "skip_ws (QuoteJSONString s @ X) = QuoteJSONString s @ X"
  by (simp add: QuoteJSONString_def skip_ws_def is_ws_def)

lemma skip_ws_boolean: "skip_ws (stringify_boolean b @ X) = stringify_boolean b @ X"
  by (simp add: stringify_boolean_def skip_ws_def is_ws_def js_def)

lemma parse_value_Quote:
  "parse_value (Suc n) (QuoteJSONString s @ rest) = Ok (JString s) rest"
  by (simp add: QuoteJSONString_def parse_chars_quote_units del: parse_chars.simps)

lemma parse_value_boolean:
  "parse_value (Suc n) (stringify_boolean b @ rest) = Ok (JBool b) rest"
  by (cases b) (simp_all add: stringify_boolean_def js_def literal_def)

lemma parse_members_property:
  assumes "parse_value n (vt @ r) = Ok v r" and "skip_ws (vt @ r) = vt @ r"
  shows "parse_members (Suc n) acc (serialize_property k vt @ r) =
     (case skip_ws r of
        [] \<Rightarrow> Throw SyntaxError
      | f # fs \<Rightarrow>
          if f = 0x2C then parse_members n (put_property k v acc) (skip_ws fs)
          else if f = 0x7D then Ok (JObject (put_property k v acc)) fs
          else Throw SyntaxError)"
  using assms
  by (simp add: serialize_property_def QuoteJSONString_def parse_chars_quote_units
      skip_ws_nonws is_ws_def del: parse_chars.simps)


lemma parse_value_object_open:
  "parse_value (Suc n) (0x7B # serialize_property k v @ X)
     = parse_members n [] (serialize_property k v @ X)"
  by (simp add: serialize_property_def QuoteJSONString_def skip_ws_def is_ws_def
      del: parse_members.simps)

lemma put_property_Todo:
  "put_property (js ''createdAt'') v4 (put_property (js ''completed'') v3
     (put_property (js ''text'') v2 (put_property (js ''id'') v1 [])))
   = [(js ''id'', v1), (js ''text'', v2), (js ''completed'', v3), (js ''createdAt'', v4)]"
  by (simp add: put_property_def js_def)

lemma parse_value_Todo:
  "parse_value (Suc (Suc (Suc (Suc (Suc (Suc n)))))) (stringify_Todo t @ rest)
     = Ok (Todo_value t) rest"
proof -
  let ?m4 = "serialize_property (js ''createdAt'') (QuoteJSONString (createdAt t))"
  let ?m3 = "serialize_property (js ''completed'') (stringify_boolean (completed t))"
  let ?m2 = "serialize_property (js ''text'') (QuoteJSONString (text_Todo t))"
  let ?m1 = "serialize_property (js ''id'') (QuoteJSONString (id_Todo t))"
  let ?r4 = "0x7D # rest"
  let ?r3 = "0x2C # ?m4 @ ?r4"
  let ?r2 = "0x2C # ?m3 @ ?r3"
  let ?r1 = "0x2C # ?m2 @ ?r2"
  have sk: "skip_ws (serialize_property k v @ X) = serialize_property k v @ X" for k v X
    by (simp add: serialize_property_def skip_ws_Quote)
  have 4: "parse_members (Suc (Suc n)) acc (?m4 @ ?r4)
             = Ok (JObject (put_property (js ''createdAt'') (JString (createdAt t)) acc)) rest" for acc
    by (subst parse_members_property [where v = "JString (createdAt t)"])
       (simp_all add: parse_value_Quote skip_ws_Quote skip_ws_nonws is_ws_def
          del: parse_value.simps parse_members.simps)
  have 3: "parse_members (Suc (Suc (Suc n))) acc (?m3 @ ?r3)
             = parse_members (Suc (Suc n)) (put_property (js ''completed'') (JBool (completed t)) acc)
                 (?m4 @ ?r4)" for acc
    by (subst parse_members_property [where v = "JBool (completed t)"])
       (simp_all add: parse_value_boolean skip_ws_boolean skip_ws_nonws is_ws_def sk
          del: parse_value.simps parse_members.simps)
  have 2: "parse_members (Suc (Suc (Suc (Suc n)))) acc (?m2 @ ?r2)
             = parse_members (Suc (Suc (Suc n))) (put_property (js ''text'') (JString (text_Todo t)) acc)
                 (?m3 @ ?r3)" for acc
    by (subst parse_members_property [where v = "JString (text_Todo t)"])
       (simp_all add: parse_value_Quote skip_ws_Quote skip_ws_nonws is_ws_def sk
          del: parse_value.simps parse_members.simps)
  have 1: "parse_members (Suc (Suc (Suc (Suc (Suc n))))) acc (?m1 @ ?r1)
             = parse_members (Suc (Suc (Suc (Suc n)))) (put_property (js ''id'') (JString (id_Todo t)) acc)
                 (?m2 @ ?r2)" for acc
    by (subst parse_members_property [where v = "JString (id_Todo t)"])
       (simp_all add: parse_value_Quote skip_ws_Quote skip_ws_nonws is_ws_def sk
          del: parse_value.simps parse_members.simps)
  have "parse_value (Suc (Suc (Suc (Suc (Suc (Suc n)))))) (0x7B # ?m1 @ ?r1)
          = parse_members (Suc (Suc (Suc (Suc (Suc n))))) [] (?m1 @ ?r1)"
    by (rule parse_value_object_open)
  also have "\<dots> = Ok (Todo_value t) rest"
    by (simp only: 1 2 3 4 put_property_Todo Todo_value_def)
  finally show ?thesis
    by (simp add: stringify_Todo_def)
qed


lemma parse_value_Todo_fuel:
  assumes "6 \<le> k"
  shows "parse_value k (stringify_Todo t @ rest) = Ok (Todo_value t) rest"
proof -
  from assms have "k = Suc (Suc (Suc (Suc (Suc (Suc (k - 6))))))" by simp
  then show ?thesis using parse_value_Todo [of "k - 6" t rest] by simp
qed

lemma skip_ws_Todo: "skip_ws (stringify_Todo t @ X) = stringify_Todo t @ X"
  by (simp add: stringify_Todo_def skip_ws_def is_ws_def)

lemma skip_ws_join:
  "skip_ws (join_comma (map stringify_Todo (u # us)) @ X)
     = join_comma (map stringify_Todo (u # us)) @ X"
  by (cases us) (simp_all add: skip_ws_Todo)

lemma parse_elements_step:
  assumes "parse_value n (vt @ r) = Ok v r"
  shows "parse_elements (Suc n) acc (vt @ r) =
     (case skip_ws r of
        [] \<Rightarrow> Throw SyntaxError
      | d # ds \<Rightarrow>
          if d = 0x2C then parse_elements n (acc @ [v]) (skip_ws ds)
          else if d = 0x5D then Ok (JArray (acc @ [v])) ds
          else Throw SyntaxError)"
  using assms by simp

lemma parse_elements_Todos:
  "length ts + 7 \<le> n \<Longrightarrow>
   parse_elements n acc (join_comma (map stringify_Todo (t # ts)) @ 0x5D # rest)
     = Ok (JArray (acc @ map Todo_value (t # ts))) rest"
proof (induction ts arbitrary: t acc n)
  case Nil
  then obtain k where n: "n = Suc k" and k: "6 \<le> k" by (cases n) auto
  have "parse_elements (Suc k) acc (stringify_Todo t @ 0x5D # rest)
          = Ok (JArray (acc @ [Todo_value t])) rest"
    by (subst parse_elements_step [where v = "Todo_value t"])
       (simp_all add: parse_value_Todo_fuel k skip_ws_nonws is_ws_def
         del: parse_value.simps parse_elements.simps)
  then show ?case by (simp add: n del: parse_elements.simps)
next
  case (Cons u us)
  then obtain k where n: "n = Suc k" and k: "length us + 7 \<le> k" by (cases n) auto
  then have k6: "6 \<le> k" by simp
  let ?tail = "join_comma (map stringify_Todo (u # us)) @ 0x5D # rest"
  have s1: "skip_ws (0x2C # ?tail) = 0x2C # ?tail"
    by (simp add: skip_ws_nonws is_ws_def)
  have s2: "skip_ws ?tail = ?tail"
    by (rule skip_ws_join)
  have "parse_elements (Suc k) acc (stringify_Todo t @ 0x2C # ?tail)
          = parse_elements k (acc @ [Todo_value t]) ?tail"
    by (simp only: parse_elements_step [OF parse_value_Todo_fuel [OF k6]] s1 s2
          list.case if_True simp_thms)
  also have "\<dots> = Ok (JArray ((acc @ [Todo_value t]) @ map Todo_value (u # us))) rest"
    using k by (rule Cons.IH)
  finally show ?case by (simp add: n del: parse_elements.simps)
qed

lemma length_join_Todos: "length L \<le> length (join_comma (map stringify_Todo L))"
proof (induction L rule: induct_list012)
  case 1
  show ?case by simp
next
  case (2 t)
  show ?case by (simp add: stringify_Todo_def)
next
  case (3 t u us)
  then show ?case by simp
qed

lemma parse_value_array_open:
  "parse_value (Suc n) (0x5B # stringify_Todo t @ X) = parse_elements n [] (stringify_Todo t @ X)"
  by (simp add: stringify_Todo_def skip_ws_def is_ws_def del: parse_elements.simps)

lemma JSON_parse_stringify: "JSON_parse (JSON_stringify L) = Inr (Todos_value L)"
proof (cases L)
  case Nil
  have pv: "parse_value (Suc k) [0x5B, 0x5D] = Ok (JArray []) []" for k
    by (simp add: skip_ws_def is_ws_def)
  have sk: "skip_ws [0x5B, 0x5D] = [0x5B, 0x5D]" "skip_ws [] = []"
    by (simp_all add: skip_ws_def is_ws_def)
  have "parse_value (Suc (Suc (2 * length [0x5B, 0x5D :: unit16]))) (skip_ws [0x5B, 0x5D])
          = Ok (JArray []) []"
    by (simp only: sk pv)
  then show ?thesis
    using sk(2) by (simp add: JSON_parse_def Nil JSON_stringify_def Todos_value_def
        del: parse_value.simps)
next
  case (Cons t ts)
  let ?J = "join_comma (map stringify_Todo (t # ts))"
  let ?s = "0x5B # ?J @ [0x5D]"
  obtain Y where J: "?J = stringify_Todo t @ Y" by (cases ts) auto
  have sk: "skip_ws ?s = ?s" by (simp add: skip_ws_nonws is_ws_def)
  have "length (t # ts) \<le> length ?J" by (rule length_join_Todos)
  then have fuel: "length ts + 7 \<le> Suc (2 * length ?s)" by simp
  have "parse_value (Suc (Suc (2 * length ?s))) ?s
          = parse_elements (Suc (2 * length ?s)) [] (?J @ [0x5D])"
    unfolding J by (simp only: append_assoc append_Cons parse_value_array_open)
  also have "\<dots> = Ok (JArray ([] @ map Todo_value (t # ts))) []"
    using fuel by (rule parse_elements_Todos)
  finally have "parse_value (Suc (Suc (2 * length ?s))) (skip_ws ?s) = Ok (Todos_value L) []"
    by (simp only: sk Cons Todos_value_def append_Nil)
  moreover have "skip_ws [] = []" by (simp add: skip_ws_def)
  moreover have "JSON_stringify L = ?s" by (simp add: JSON_stringify_def Cons)
  ultimately show ?thesis
    by (simp add: JSON_parse_def del: parse_value.simps)
qed

subsection \<open>The parser's fuel is never used up\<close>

text \<open>
  Every successful step of the parser consumes text, so the recursion depth is bounded
  by the length of the text: with more than twice that length as fuel, no call returns
  \<open>OutOfFuel\<close>. The last case of \<open>JSON_parse\<close> is therefore never taken.
\<close>

lemma skip_ws_length: "length (skip_ws s) \<le> length s"
  by (simp add: skip_ws_def length_dropWhile_le)

lemma skip_ws_Cons_length: "skip_ws s = d # ds \<Longrightarrow> length ds < length s"
  using skip_ws_length [of s] by simp

lemma prepend_Some:
  "prepend c x = Some (str, r) \<Longrightarrow> \<exists>str'. x = Some (str', r)"
  by (cases x) (auto simp: prepend_def)

lemma parse_chars_shorter: "parse_chars s = Some (str, r) \<Longrightarrow> length r < length s"
proof (induction s arbitrary: str rule: parse_chars.induct)
  case 1
  then show ?case by simp
next
  case (2 c cs)
  show ?case
  proof (cases "c = 0x22")
    case True
    with 2(4) show ?thesis by simp
  next
    case q: False
    show ?thesis
    proof (cases "c = 0x5C")
      case True
      show ?thesis
      proof (cases cs)
        case Nil
        with 2(4) q True show ?thesis by simp
      next
        case (Cons e es)
        show ?thesis
        proof (cases "e = 0x75")
          case u: True
          from 2(4) q True Cons u obtain h1 h2 h3 h4 r' v where
            es: "es = h1 # h2 # h3 # h4 # r'" and h: "hex4_value h1 h2 h3 h4 = Some v"
            and p: "prepend v (parse_chars r') = Some (str, r)"
            by (auto split: list.splits option.splits)
          from p obtain str' where "parse_chars r' = Some (str', r)"
            by (auto dest: prepend_Some)
          with q True Cons u es h have "length r < length r'"
            by (intro 2(1)) auto
          with Cons es show ?thesis by simp
        next
          case u: False
          from 2(4) q True Cons u obtain v where
            h: "unescape e = Some v" and p: "prepend v (parse_chars es) = Some (str, r)"
            by (auto split: option.splits)
          from p obtain str' where "parse_chars es = Some (str', r)"
            by (auto dest: prepend_Some)
          with q True Cons u h have "length r < length es"
            by (intro 2(2)) auto
          with Cons show ?thesis by simp
        qed
      qed
    next
      case b: False
      with 2(4) q have c: "\<not> c < 0x20" and p: "prepend c (parse_chars cs) = Some (str, r)"
        by (auto split: if_splits)
      from p obtain str' where "parse_chars cs = Some (str', r)"
        by (auto dest: prepend_Some)
      with q b c have "length r < length cs"
        by (intro 2(3)) auto
      then show ?thesis by simp
    qed
  qed
qed

lemma literal_shorter: "literal w s = Some r \<Longrightarrow> w \<noteq> [] \<Longrightarrow> length r < length s"
proof -
  assume a: "literal w s = Some r" and w: "w \<noteq> []"
  then have t: "take (length w) s = w" and r: "r = drop (length w) s"
    by (auto simp: literal_def split: if_splits)
  from t have "length w \<le> length s"
    by (metis length_take min.cobounded1)
  with w r show ?thesis by (cases w) auto
qed

lemma digits1_shorter: "digits1 s = Some (ds, r) \<Longrightarrow> length r < length s"
proof -
  assume "digits1 s = Some (ds, r)"
  then have t: "takeWhile is_digit s \<noteq> []" and r: "r = dropWhile is_digit s"
    by (auto simp: digits1_def split: list.splits)
  have "length (takeWhile is_digit s) + length (dropWhile is_digit s) = length s"
    by (metis length_append takeWhile_dropWhile_id)
  with t r show ?thesis by (cases "takeWhile is_digit s") auto
qed

lemma scan_int_shorter: "scan_int s = Some (i, r) \<Longrightarrow> length r < length s"
  by (auto simp: scan_int_def split: list.splits if_splits dest: digits1_shorter)

lemma scan_frac_shorter: "scan_frac s = Some (f, r) \<Longrightarrow> length r \<le> length s"
  by (auto simp: scan_frac_def split: list.splits if_splits option.splits dest!: digits1_shorter)

lemma scan_sign_shorter: "scan_sign s = (sg, r) \<Longrightarrow> length r \<le> length s"
  by (auto simp: scan_sign_def split: list.splits if_splits)

lemma scan_exp_shorter: "scan_exp s = Some (x, r) \<Longrightarrow> length r \<le> length s"
  by (auto simp: scan_exp_def split: list.splits if_splits option.splits prod.splits
      dest!: digits1_shorter scan_sign_shorter)

lemma scan_minus_shorter: "scan_minus s = (m, r) \<Longrightarrow> length r \<le> length s"
  by (auto simp: scan_minus_def split: list.splits if_splits)

lemma parse_number_shorter: "parse_number s = Some (lit, r) \<Longrightarrow> length r < length s"
proof -
  assume "parse_number s = Some (lit, r)"
  then obtain m s1 i s2 f s3 x where
    "scan_minus s = (m, s1)" "scan_int s1 = Some (i, s2)" "scan_frac s2 = Some (f, s3)"
    "scan_exp s3 = Some (x, r)"
    by (auto simp: parse_number_def split: prod.splits option.splits)
  then have "length s1 \<le> length s" "length s2 < length s1" "length s3 \<le> length s2"
    "length r \<le> length s3"
    by (auto dest: scan_minus_shorter scan_int_shorter scan_frac_shorter scan_exp_shorter)
  then show ?thesis by simp
qed


lemma parse_value_step_shorter:
  assumes E: "\<And>acc s v r. parse_elements n acc s = Ok v r \<Longrightarrow> length r < length s"
    and M: "\<And>acc s v r. parse_members n acc s = Ok v r \<Longrightarrow> length r < length s"
    and P: "parse_value (Suc n) s = Ok v r"
  shows "length r < length s"
proof (cases s)
  case Nil
  with P show ?thesis by simp
next
  case (Cons c cs)
  consider "c = 0x7B" | "c = 0x5B" | "c = 0x22" | "c = 0x74" | "c = 0x66" | "c = 0x6E"
    | "c \<noteq> 0x7B" "c \<noteq> 0x5B" "c \<noteq> 0x22" "c \<noteq> 0x74" "c \<noteq> 0x66" "c \<noteq> 0x6E"
    by blast
  then show ?thesis
  proof cases
    case 1
    with P Cons obtain d ds where sk: "skip_ws cs = d # ds"
      and r: "d = 0x7D \<and> r = ds \<or> parse_members n [] (d # ds) = Ok v r"
      by (auto split: list.splits if_splits)
    from sk have "length ds < length cs" by (rule skip_ws_Cons_length)
    moreover from r have "length r \<le> length ds \<or> length r < Suc (length ds)"
      by (auto dest: M)
    ultimately show ?thesis using Cons by auto
  next
    case 2
    with P Cons obtain d ds where sk: "skip_ws cs = d # ds"
      and r: "d = 0x5D \<and> r = ds \<or> parse_elements n [] (d # ds) = Ok v r"
      by (auto split: list.splits if_splits)
    from sk have "length ds < length cs" by (rule skip_ws_Cons_length)
    moreover from r have "length r \<le> length ds \<or> length r < Suc (length ds)"
      by (auto dest: E)
    ultimately show ?thesis using Cons by auto
  next
    case 3
    with P Cons obtain str where "parse_chars cs = Some (str, r)"
      by (auto split: option.splits)
    then have "length r < length cs" by (rule parse_chars_shorter)
    with Cons show ?thesis by simp
  next
    case 4
    with P Cons have "literal (js ''true'') s = Some r"
      by (auto split: option.splits)
    then show ?thesis by (rule literal_shorter) (simp add: js_def)
  next
    case 5
    with P Cons have "literal (js ''false'') s = Some r"
      by (auto split: option.splits)
    then show ?thesis by (rule literal_shorter) (simp add: js_def)
  next
    case 6
    with P Cons have "literal (js ''null'') s = Some r"
      by (auto split: option.splits)
    then show ?thesis by (rule literal_shorter) (simp add: js_def)
  next
    case 7
    with P Cons obtain lit where "parse_number s = Some (lit, r)"
      by (auto split: option.splits)
    then show ?thesis by (rule parse_number_shorter)
  qed
qed

lemma parse_elements_step_shorter:
  assumes V: "\<And>s v r. parse_value n s = Ok v r \<Longrightarrow> length r < length s"
    and E: "\<And>acc s v r. parse_elements n acc s = Ok v r \<Longrightarrow> length r < length s"
    and P: "parse_elements (Suc n) acc s = Ok v r"
  shows "length r < length s"
proof -
  from P obtain v' r' d ds where v: "parse_value n s = Ok v' r'" and sk: "skip_ws r' = d # ds"
    and r: "parse_elements n (acc @ [v']) (skip_ws ds) = Ok v r \<or> r = ds"
    by (auto split: parsed.splits list.splits if_splits)
  from v have "length r' < length s" by (rule V)
  moreover from sk have "length ds < length r'" by (rule skip_ws_Cons_length)
  moreover from r have "length r \<le> length ds"
    using skip_ws_length [of ds] by (auto dest!: E)
  ultimately show ?thesis by simp
qed

lemma parse_members_step_shorter:
  assumes V: "\<And>s v r. parse_value n s = Ok v r \<Longrightarrow> length r < length s"
    and M: "\<And>acc s v r. parse_members n acc s = Ok v r \<Longrightarrow> length r < length s"
    and P: "parse_members (Suc n) acc s = Ok v r"
  shows "length r < length s"
proof -
  from P obtain cs k r1 ds v' r2 f fs where s: "s = 0x22 # cs"
    and k: "parse_chars cs = Some (k, r1)" and sk1: "skip_ws r1 = 0x3A # ds"
    and v: "parse_value n (skip_ws ds) = Ok v' r2" and sk2: "skip_ws r2 = f # fs"
    and r: "parse_members n (put_property k v' acc) (skip_ws fs) = Ok v r \<or> r = fs"
    by (auto split: parsed.splits list.splits if_splits option.splits)
  from k have "length r1 < length cs" by (rule parse_chars_shorter)
  moreover from sk1 have "length ds < length r1" by (rule skip_ws_Cons_length)
  moreover from v have "length r2 < length ds"
    using skip_ws_length [of ds] by (auto dest!: V)
  moreover from sk2 have "length fs < length r2" by (rule skip_ws_Cons_length)
  moreover from r have "length r \<le> length fs"
    using skip_ws_length [of fs] by (auto dest!: M)
  ultimately show ?thesis using s by simp
qed

lemma parse_shorter_all:
  "(\<forall>s v r. parse_value n s = Ok v r \<longrightarrow> length r < length s)
   \<and> (\<forall>acc s v r. parse_elements n acc s = Ok v r \<longrightarrow> length r < length s)
   \<and> (\<forall>acc s v r. parse_members n acc s = Ok v r \<longrightarrow> length r < length s)"
proof (induction n)
  case 0
  show ?case by simp
next
  case (Suc n)
  then have V: "\<And>s v r. parse_value n s = Ok v r \<Longrightarrow> length r < length s"
    and E: "\<And>acc s v r. parse_elements n acc s = Ok v r \<Longrightarrow> length r < length s"
    and M: "\<And>acc s v r. parse_members n acc s = Ok v r \<Longrightarrow> length r < length s"
    by blast+
  have "length r < length s" if "parse_value (Suc n) s = Ok v r" for s v r
    using E M that by (rule parse_value_step_shorter [of n])
  moreover have "length r < length s" if "parse_elements (Suc n) acc s = Ok v r" for acc s v r
    using V E that by (rule parse_elements_step_shorter [of n])
  moreover have "length r < length s" if "parse_members (Suc n) acc s = Ok v r" for acc s v r
    using V M that by (rule parse_members_step_shorter [of n])
  ultimately show ?case by blast
qed

lemma parse_value_shorter: "parse_value n s = Ok v r \<Longrightarrow> length r < length s"
  using parse_shorter_all [of n] by blast


lemma parse_elements_shorter: "parse_elements n acc s = Ok v r \<Longrightarrow> length r < length s"
  using parse_shorter_all [of n] by blast

lemma parse_members_shorter: "parse_members n acc s = Ok v r \<Longrightarrow> length r < length s"
  using parse_shorter_all [of n] by blast

lemma parse_value_step_fuel:
  assumes E: "\<forall>acc s. 2 * length s + 1 < n \<longrightarrow> parse_elements n acc s \<noteq> OutOfFuel"
    and M: "\<forall>acc s. 2 * length s + 1 < n \<longrightarrow> parse_members n acc s \<noteq> OutOfFuel"
    and F: "2 * length s < Suc n"
  shows "parse_value (Suc n) s \<noteq> OutOfFuel"
proof (cases s)
  case Nil
  then show ?thesis by simp
next
  case (Cons c cs)
  have rec: "2 * length (d # ds) + 1 < n" if "skip_ws cs = d # ds" for d ds
    using skip_ws_Cons_length [OF that] F Cons by simp
  consider "c = 0x7B" | "c = 0x5B" | "c \<noteq> 0x7B" "c \<noteq> 0x5B"
    by blast
  then show ?thesis
  proof cases
    case 1
    with Cons M rec show ?thesis by (auto split: list.splits)
  next
    case 2
    with Cons E rec show ?thesis by (auto split: list.splits)
  next
    case 3
    with Cons show ?thesis by (auto split: option.splits)
  qed
qed

lemma parse_elements_step_fuel:
  assumes V: "\<forall>s. 2 * length s < n \<longrightarrow> parse_value n s \<noteq> OutOfFuel"
    and E: "\<forall>acc s. 2 * length s + 1 < n \<longrightarrow> parse_elements n acc s \<noteq> OutOfFuel"
    and F: "2 * length s + 1 < Suc n"
  shows "parse_elements (Suc n) acc s \<noteq> OutOfFuel"
proof (cases "parse_value n s")
  case (Ok v r)
  then have r: "length r < length s" by (rule parse_value_shorter)
  show ?thesis
  proof (cases "skip_ws r")
    case Nil
    with Ok show ?thesis by simp
  next
    case (Cons d ds)
    then have "length ds < length r" by (rule skip_ws_Cons_length)
    with r F have "2 * length (skip_ws ds) + 1 < n"
      using skip_ws_length [of ds] by simp
    with E have "parse_elements n (acc @ [v]) (skip_ws ds) \<noteq> OutOfFuel" by blast
    with Ok Cons show ?thesis by simp
  qed
next
  case (Throw e)
  then show ?thesis by simp
next
  case OutOfFuel
  moreover from F have "2 * length s < n" by simp
  ultimately show ?thesis using V by blast
qed

lemma parse_members_step_fuel:
  assumes V: "\<forall>s. 2 * length s < n \<longrightarrow> parse_value n s \<noteq> OutOfFuel"
    and M: "\<forall>acc s. 2 * length s + 1 < n \<longrightarrow> parse_members n acc s \<noteq> OutOfFuel"
    and F: "2 * length s + 1 < Suc n"
  shows "parse_members (Suc n) acc s \<noteq> OutOfFuel"
proof
  assume P: "parse_members (Suc n) acc s = OutOfFuel"
  then obtain cs k r1 ds where s: "s = 0x22 # cs"
    and k: "parse_chars cs = Some (k, r1)" and sk1: "skip_ws r1 = 0x3A # ds"
    by (auto split: parsed.splits list.splits if_splits option.splits)
  from k have "length r1 < length cs" by (rule parse_chars_shorter)
  moreover from sk1 have "length ds < length r1" by (rule skip_ws_Cons_length)
  ultimately have ds: "length (skip_ws ds) < length s"
    using skip_ws_length [of ds] s by simp
  with F V have nv: "parse_value n (skip_ws ds) \<noteq> OutOfFuel" by simp
  with P s k sk1 obtain v r2 f fs where v: "parse_value n (skip_ws ds) = Ok v r2"
    and sk2: "skip_ws r2 = f # fs"
    and m: "parse_members n (put_property k v acc) (skip_ws fs) = OutOfFuel"
    by (auto split: parsed.splits list.splits if_splits)
  from v have "length r2 < length (skip_ws ds)" by (rule parse_value_shorter)
  moreover from sk2 have "length fs < length r2" by (rule skip_ws_Cons_length)
  ultimately have "2 * length (skip_ws fs) + 1 < n"
    using skip_ws_length [of fs] ds F by simp
  with M m show False by blast
qed

lemma parse_fuel_all:
  "(\<forall>s. 2 * length s < n \<longrightarrow> parse_value n s \<noteq> OutOfFuel)
   \<and> (\<forall>acc s. 2 * length s + 1 < n \<longrightarrow> parse_elements n acc s \<noteq> OutOfFuel)
   \<and> (\<forall>acc s. 2 * length s + 1 < n \<longrightarrow> parse_members n acc s \<noteq> OutOfFuel)"
proof (induction n)
  case 0
  show ?case by simp
next
  case (Suc n)
  then have V: "\<forall>s. 2 * length s < n \<longrightarrow> parse_value n s \<noteq> OutOfFuel"
    and E: "\<forall>acc s. 2 * length s + 1 < n \<longrightarrow> parse_elements n acc s \<noteq> OutOfFuel"
    and M: "\<forall>acc s. 2 * length s + 1 < n \<longrightarrow> parse_members n acc s \<noteq> OutOfFuel"
    by blast+
  have "parse_value (Suc n) s \<noteq> OutOfFuel" if "2 * length s < Suc n" for s
    using E M that by (rule parse_value_step_fuel)
  moreover have "parse_elements (Suc n) acc s \<noteq> OutOfFuel" if "2 * length s + 1 < Suc n" for acc s
    using V E that by (rule parse_elements_step_fuel)
  moreover have "parse_members (Suc n) acc s \<noteq> OutOfFuel" if "2 * length s + 1 < Suc n" for acc s
    using V M that by (rule parse_members_step_fuel)
  ultimately show ?case by blast
qed

lemma JSON_parse_fuel:
  "parse_value (Suc (Suc (2 * length s))) (skip_ws s) \<noteq> OutOfFuel"
proof -
  have "2 * length (skip_ws s) < Suc (Suc (2 * length s))"
    using skip_ws_length [of s] by simp
  with parse_fuel_all [of "Suc (Suc (2 * length s))"] show ?thesis by blast
qed

section \<open>Properties of the storage effects\<close>

lemma dispatch_SET_TODOS_typed:
  "dispatch_SET_TODOS (Todos_value state) (Todos_value payload)
     = Todos_value (todoReducer e state (SET_TODOS payload))"
  by (simp add: dispatch_SET_TODOS_def)

lemma Todos_value_inject: "Todos_value L = Todos_value L' \<longleftrightarrow> L = L'"
proof -
  have "inj Todo_value"
    by (rule injI) (simp add: Todo_value_def)
  then show ?thesis
    by (simp add: Todos_value_def inj_map_eq_map)
qed

lemma is_Todo_array_Todos_value: "is_Todo_array (Todos_value L)"
  by (simp add: Todos_value_def Todo_value_def list_all_iff js_def)

lemma JSON_stringify_not_empty: "JSON_stringify L \<noteq> []"
  by (simp add: JSON_stringify_def)

lemma JSON_parse_null: "JSON_parse (js ''null'') = Inr JNull"
proof -
  have pv: "parse_value (Suc k) (js ''null'') = Ok JNull []" for k
    by (simp add: js_def literal_def)
  have sk: "skip_ws (js ''null'') = js ''null''"
    by (simp add: js_def skip_ws_def is_ws_def)
  have p: "parse_value (Suc (Suc (2 * length (js ''null'')))) (skip_ws (js ''null''))
             = Ok JNull []"
    by (simp only: sk pv)
  show ?thesis
    unfolding JSON_parse_def p by (simp add: skip_ws_def)
qed

lemma JSON_parse_partial:
  "JSON_parse (js ''[{\"id\":\"a1\"}]'') = Inr (JArray [JObject [(js ''id'', JString (js ''a1''))]])"
proof -
  let ?s = "js ''[{\"id\":\"a1\"}]''"
  have pv: "parse_value (Suc (Suc (Suc (Suc (Suc k))))) ?s
          = Ok (JArray [JObject [(js ''id'', JString (js ''a1''))]]) []" for k
    by (simp add: js_def skip_ws_def is_ws_def put_property_def prepend_def)
  have f: "Suc (Suc (2 * length ?s)) = Suc (Suc (Suc (Suc (Suc 23))))"
    by (simp add: js_def)
  have sk: "skip_ws ?s = ?s"
    by (simp add: js_def skip_ws_def is_ws_def)
  have p: "parse_value (Suc (Suc (2 * length ?s))) (skip_ws ?s)
             = Ok (JArray [JObject [(js ''id'', JString (js ''a1''))]]) []"
    by (simp only: f sk pv)
  show ?thesis
    unfolding JSON_parse_def p by (simp add: skip_ws_def)
qed

lemma JSON_parse_broken: "JSON_parse (js ''{bad'') = Inl SyntaxError"
proof -
  have pv: "parse_value (Suc (Suc k)) (js ''{bad'') = Throw SyntaxError" for k
    by (simp add: js_def skip_ws_def is_ws_def)
  have sk: "skip_ws (js ''{bad'') = js ''{bad''"
    by (simp add: js_def skip_ws_def is_ws_def)
  have p: "parse_value (Suc (Suc (2 * length (js ''{bad'')))) (skip_ws (js ''{bad''))
             = Throw SyntaxError"
    by (simp only: sk pv)
  show ?thesis
    unfolding JSON_parse_def p by simp
qed

text \<open>
  C6. For every list \<open>L\<close> of tasks, the empty list included, and every storage: after
  the save effect of a mounted page has written \<open>L\<close>, hydration yields the value of \<open>L\<close>,
  the array of the objects of \<open>L\<close> in order (\<open>Todos_value\<close> is injective, so this value
  determines \<open>L\<close>).
\<close>

theorem save_then_load_roundtrip:
  "hydrate (saveEffect True L localStorage) = Todos_value L"
  by (simp add: hydrate_def initApp_def saveEffect_def localStorage_setItem_def
      localStorage_getItem_def JSON_stringify_not_empty JSON_parse_stringify
      dispatch_SET_TODOS_def)

lemma hydrate_SyntaxError_gives_empty:
  assumes "localStorage_getItem localStorage (js ''todos'') = Some saved"
    and "JSON_parse saved = Inl e"
  shows "hydrate localStorage = JArray []"
  using assms by (simp add: hydrate_def initApp_def)

text \<open>
  C7. For every stored value that is corrupted (it cannot be deserialized into a
  sequence of tasks), hydration yields the empty list. The code does this on the path
  where \<open>JSON.parse\<close> raises: the broken text \<open>{bad\<close> is corrupted and hydrates to \<open>[]\<close>.
  It does not on the path where \<open>JSON.parse\<close> returns: the stored \<open>null\<close> is corrupted
  and becomes the state \<open>null\<close>, and a stored array with an object that has only an \<open>id\<close>
  is corrupted and becomes the state as it is. The theorem evaluates hydration at these
  three stored values.
\<close>

theorem hydrate_corrupted_not_empty:
  "corrupted (js ''{bad'') \<and> hydrate broken_storage = JArray []
   \<and> corrupted (js ''null'') \<and> hydrate null_storage = JNull \<and> hydrate null_storage \<noteq> JArray []
   \<and> corrupted (js ''[{\"id\":\"a1\"}]'')
   \<and> hydrate partial_storage = JArray [JObject [(js ''id'', JString (js ''a1''))]]
   \<and> hydrate partial_storage \<noteq> JArray []"
proof -
  have "localStorage_getItem broken_storage (js ''todos'') = Some (js ''{bad'')"
    by (simp add: localStorage_getItem_def broken_storage_def)
  then have "hydrate broken_storage = JArray []"
    using JSON_parse_broken by (rule hydrate_SyntaxError_gives_empty)
  moreover have "js ''null'' \<noteq> []" "js ''[{\"id\":\"a1\"}]'' \<noteq> []"
    by (simp_all add: js_def)
  ultimately show ?thesis
    by (simp add: corrupted_def hydrate_def initApp_def null_storage_def partial_storage_def
        localStorage_getItem_def JSON_parse_null JSON_parse_partial JSON_parse_broken
        dispatch_SET_TODOS_def)
qed

section \<open>Uniqueness of ids\<close>








end
